theory Spec2Isabelle
  imports Complex_Main
begin

section \<open>Mixture density network core: numeric model\<close>

text \<open>
  The development embeds the NumPy half of \<^verbatim>\<open>src/mdn/__init__.py\<close>, the
  TensorFlow loss function and the scale activation. Numbers are reals
  (\<^typ>\<open>real\<close>). Floating-point arithmetic enters in two places, where it changes
  what the code returns on whole ranges of inputs: every operation of the scale
  activation is rounded to the nearest floating-point number, and \<open>softmax_underflow\<close>
  carries the underflow of \<^verbatim>\<open>np.exp\<close> to zero. Elsewhere the arithmetic is exact:
  rounding in the last place, overflow and infinities are not represented, and every
  place where the code produces a NaN or raises is an explicit \<open>Inl\<close> branch.
  Python integers are \<^typ>\<open>int\<close>. The random draws of \<^verbatim>\<open>np.random\<close> are
  arguments of the model.
\<close>

subsection \<open>Failures\<close>

text \<open>
  The exceptions NumPy and TensorFlow raise on the paths modelled here, and
  \<open>NotANumber\<close> for a result that is NaN in floating point (nothing is raised
  there; the value has no counterpart among the reals). \<open>ShapeError\<close> is the
  error of the specification; no statement of the source raises it. \<open>Unmodelled\<close>
  marks an input on which the code returns a value that the model's types do not
  carry.
\<close>

datatype failure =
    EmptyReduction        \<comment> \<open>ValueError: zero-size array to reduction operation maximum\<close>
  | BroadcastError        \<comment> \<open>ValueError: operands could not be broadcast together\<close>
  | NegativeDimensions    \<comment> \<open>ValueError: negative dimensions are not allowed\<close>
  | CovNotSquare          \<comment> \<open>ValueError: cov must be 2 dimensional and square\<close>
  | MeanCovMismatch       \<comment> \<open>ValueError: mean and cov must have same length\<close>
  | ZeroDimensional       \<comment> \<open>ValueError of the sampler on a mean of length zero\<close>
  | ReshapeError          \<comment> \<open>InvalidArgumentError of tf.reshape\<close>
  | NotANumber            \<comment> \<open>the floating-point result is NaN\<close>
  | ShapeError
  | Unmodelled

subsection \<open>Floating-point rounding\<close>

text \<open>
  Rounding to the nearest number of a binary floating-point format with \<open>p\<close>
  significand bits and least exponent \<open>emin\<close>, ties to the even significand.
  The \<open>quantum\<close> of \<open>x\<close> is the spacing of the format's numbers around \<open>x\<close>;
  below \<open>2\<^sup>e\<^sup>m\<^sup>i\<^sup>n\<close> the spacing stays that of the subnormal numbers, so that
  a magnitude of at most half the least subnormal number rounds to zero. The
  largest finite number is not modelled: nothing overflows. \<open>binary32\<close> is the
  default float type of Keras tensors, \<open>binary64\<close> that of NumPy arrays made from
  Python floats.
\<close>

definition rne :: "real \<Rightarrow> int" where
  "rne q =
     (let f = \<lfloor>q\<rfloor>; d = q - of_int f
      in if d < 1 / 2 then f else if 1 / 2 < d then f + 1 else if even f then f else f + 1)"

definition exponent :: "int \<Rightarrow> real \<Rightarrow> int" where
  "exponent emin x = max emin \<lfloor>log 2 \<bar>x\<bar>\<rfloor>"

definition quantum :: "nat \<Rightarrow> int \<Rightarrow> real \<Rightarrow> real" where
  "quantum p emin x = 2 powr real_of_int (exponent emin x - (int p - 1))"

definition fl :: "nat \<Rightarrow> int \<Rightarrow> real \<Rightarrow> real" where
  "fl p emin x =
     (if x = 0 then 0 else quantum p emin x * of_int (rne (x / quantum p emin x)))"

definition binary32 :: "real \<Rightarrow> real" where
  "binary32 = fl 24 (- 126)"


subsection \<open>Python slicing\<close>

text \<open>
  \<^verbatim>\<open>xs[lo:hi]\<close> with step 1: a negative bound counts from the end, every bound
  is clamped to \<open>0..len(xs)\<close>, a missing bound is the corresponding end, and the
  slice is empty when the upper bound does not exceed the lower one. Slicing
  never raises.
\<close>

definition slice_bound :: "nat \<Rightarrow> int \<Rightarrow> nat" where
  "slice_bound n i = (if i < 0 then nat (max 0 (int n + i)) else min n (nat i))"

definition py_slice :: "'a list \<Rightarrow> int option \<Rightarrow> int option \<Rightarrow> 'a list" where
  "py_slice xs lo hi =
     (let n = length xs;
          a = (case lo of None \<Rightarrow> 0 | Some i \<Rightarrow> slice_bound n i);
          b = (case hi of None \<Rightarrow> n | Some j \<Rightarrow> slice_bound n j)
      in take (b - a) (drop a xs))"

subsection \<open>split_mixture_params\<close>

text \<open>
  \<^verbatim>\<open>mus = params[:num_mixes * output_dim]\<close>,
  \<^verbatim>\<open>sigs = params[num_mixes * output_dim:2 * num_mixes * output_dim]\<close>,
  \<^verbatim>\<open>pi_logits = params[-num_mixes:]\<close>. The body has no check and no raise, so the
  result is always \<open>Inr\<close>.
\<close>

definition split_mixture_params ::
  "real list \<Rightarrow> int \<Rightarrow> int \<Rightarrow> failure + (real list \<times> real list \<times> real list)" where
  "split_mixture_params params output_dim num_mixes =
     (let mus = py_slice params None (Some (num_mixes * output_dim));
          sigs = py_slice params (Some (num_mixes * output_dim))
                   (Some (2 * num_mixes * output_dim));
          pi_logits = py_slice params (Some (- num_mixes)) None
      in Inr (mus, sigs, pi_logits))"

subsection \<open>softmax\<close>

text \<open>
  \<^verbatim>\<open>e = np.array(w) / t; e -= e.max(); e = np.exp(e); dist = e / np.sum(e)\<close>.
  \<^verbatim>\<open>e.max()\<close> raises on an empty array. Dividing by \<open>t = 0\<close> does not raise in
  NumPy: the quotients are infinite or NaN and every entry of the result is NaN,
  which is \<open>Inl NotANumber\<close> here. The sum of the exponentials is at least
  \<open>exp 0\<close>, so the last division is by a positive number.
\<close>

definition softmax :: "real list \<Rightarrow> real \<Rightarrow> failure + real list" where
  "softmax w t =
     (if w = [] then Inl EmptyReduction
      else if t = 0 then Inl NotANumber
      else
        let e = map (\<lambda>x. x / t) w;
            e = map (\<lambda>x. x - Max (set e)) e;
            e = map exp e;
            distr = map (\<lambda>x. x / sum_list e) e
        in Inr distr)"



subsection \<open>sample_from_categorical\<close>

text \<open>
  The loop \<^verbatim>\<open>for i in range(0, dist.size)\<close> with the running sum \<^verbatim>\<open>accumulate\<close>;
  \<open>r\<close> is the value drawn by \<^verbatim>\<open>np.random.rand(1)\<close>. The walk returns \<open>Some i\<close> at
  the \<^verbatim>\<open>return i\<close> inside the loop and \<open>None\<close> when the loop runs to its end.
\<close>

fun categorical_walk :: "real \<Rightarrow> real \<Rightarrow> nat \<Rightarrow> real list \<Rightarrow> nat option" where
  "categorical_walk r accumulate i [] = None"
| "categorical_walk r accumulate i (d # ds) =
     (let accumulate = accumulate + d
      in if accumulate \<ge> r then Some i else categorical_walk r accumulate (Suc i) ds)"

text \<open>
  The argument \<open>distr\<close> is the source's \<^verbatim>\<open>dist\<close>. The result is the returned
  integer together with the lines written by \<^verbatim>\<open>tf.logging.info\<close> (the
  TensorFlow 1 logging interface, taken to write the line and return).
\<close>

definition sample_from_categorical :: "real list \<Rightarrow> real \<Rightarrow> int \<times> string list" where
  "sample_from_categorical distr r =
     (case categorical_walk r 0 0 distr of
        Some i \<Rightarrow> (int i, [])
      | None \<Rightarrow> (- 1, [''Error sampling categorical model.'']))"

subsection \<open>sample_from_output\<close>

text \<open>
  The sample itself is random; the model returns the distribution it is drawn
  from, that is the two arguments \<^verbatim>\<open>mean\<close> and \<^verbatim>\<open>cov\<close> handed to
  \<^verbatim>\<open>np.random.multivariate_normal\<close>, once that function has accepted their shapes.
  A matrix is the list of its rows; the only matrix without rows on this path has
  shape \<open>(0, 0)\<close>.
\<close>

datatype mvn = MultivariateNormal (mean: "real list") (cov: "real list list")

definition np_identity :: "int \<Rightarrow> failure + real list list" where
  "np_identity n =
     (if n < 0 then Inl NegativeDimensions
      else Inr (map (\<lambda>i. map (\<lambda>j. if i = j then 1 else 0) [0..<nat n]) [0..<nat n]))"

text \<open>
  \<^verbatim>\<open>a * v\<close> for a square array \<open>a\<close> of shape \<open>(n, n)\<close> and a vector \<open>v\<close> of shape
  \<open>(k,)\<close>, by NumPy's broadcasting rule on the last axis: equal lengths multiply
  column by column, a length of one is stretched, anything else raises.
\<close>

definition broadcast_mul :: "real list list \<Rightarrow> real list \<Rightarrow> failure + real list list" where
  "broadcast_mul a v =
     (if length v = length a then Inr (map (\<lambda>row. map2 (*) row v) a)
      else if length v = 1 then Inr (map (map (\<lambda>x. x * hd v)) a)
      else if length a = 1 then Inr [map (\<lambda>y. hd (hd a) * y) v]
      else Inl BroadcastError)"

text \<open>
  The checks of \<^verbatim>\<open>np.random.multivariate_normal\<close>: the shape checks at its head,
  and the failure to draw for a mean of length zero.
\<close>

definition multivariate_normal :: "real list \<Rightarrow> real list list \<Rightarrow> failure + mvn" where
  "multivariate_normal mean_vector cov_matrix =
     (let rows = length cov_matrix;
          cols = (case cov_matrix of [] \<Rightarrow> 0 | row # _ \<Rightarrow> length row)
      in if rows \<noteq> cols then Inl CovNotSquare
         else if length mean_vector \<noteq> rows then Inl MeanCovMismatch
         else if rows = 0 then Inl ZeroDimensional
         else Inr (MultivariateNormal mean_vector cov_matrix))"

text \<open>
  Lines 227 to 230, for the index \<open>m\<close> the categorical sampler returned:
  \<^verbatim>\<open>mus_vector = mus[m * output_dim:(m + 1) * output_dim]\<close>,
  \<^verbatim>\<open>sig_vector = sigs[m * output_dim:(m + 1) * output_dim] * sigma_temp\<close>,
  \<^verbatim>\<open>cov_matrix = np.identity(output_dim) * sig_vector\<close>,
  \<^verbatim>\<open>np.random.multivariate_normal(mus_vector, cov_matrix, 1)\<close>.
\<close>

definition mus_vector :: "real list \<Rightarrow> int \<Rightarrow> int \<Rightarrow> real list" where
  "mus_vector mus output_dim m =
     py_slice mus (Some (m * output_dim)) (Some ((m + 1) * output_dim))"

definition sig_vector :: "real list \<Rightarrow> int \<Rightarrow> int \<Rightarrow> real \<Rightarrow> real list" where
  "sig_vector sigs output_dim m sigma_temp =
     map (\<lambda>s. s * sigma_temp)
       (py_slice sigs (Some (m * output_dim)) (Some ((m + 1) * output_dim)))"

definition cov_matrix :: "real list \<Rightarrow> int \<Rightarrow> int \<Rightarrow> real \<Rightarrow> failure + real list list" where
  "cov_matrix sigs output_dim m sigma_temp =
     (case np_identity output_dim of
        Inl e \<Rightarrow> Inl e
      | Inr a \<Rightarrow> broadcast_mul a (sig_vector sigs output_dim m sigma_temp))"

definition draw_component ::
  "real list \<Rightarrow> real list \<Rightarrow> int \<Rightarrow> int \<Rightarrow> real \<Rightarrow> failure + mvn" where
  "draw_component mus sigs output_dim m sigma_temp =
     (case cov_matrix sigs output_dim m sigma_temp of
        Inl e \<Rightarrow> Inl e
      | Inr c \<Rightarrow> multivariate_normal (mus_vector mus output_dim m) c)"

text \<open>
  Lines 224 to 230: the index returned by \<open>sample_from_categorical\<close> is used as it
  is. The first component of the result is what was logged.
\<close>

definition sample_from_pis ::
  "real list \<Rightarrow> real list \<Rightarrow> real list \<Rightarrow> int \<Rightarrow> real \<Rightarrow> real
     \<Rightarrow> string list \<times> (failure + mvn)" where
  "sample_from_pis mus sigs pis output_dim sigma_temp r =
     (let (m, logged) = sample_from_categorical pis r
      in (logged, draw_component mus sigs output_dim m sigma_temp))"

text \<open>
  The whole function; \<open>r\<close> is the uniform draw of the categorical sampler. Where
  \<open>softmax\<close> yields the array of NaN (\<open>temp = 0\<close>), every comparison
  \<^verbatim>\<open>accumulate >= r\<close> of the sampler is false: it logs its line and returns \<open>-1\<close>,
  and the function goes on with that index. The empty logit vector raises inside
  \<open>softmax\<close>.
\<close>

definition sample_from_output ::
  "real list \<Rightarrow> int \<Rightarrow> int \<Rightarrow> real \<Rightarrow> real \<Rightarrow> real \<Rightarrow> string list \<times> (failure + mvn)" where
  "sample_from_output params output_dim num_mixes temp sigma_temp r =
     (case split_mixture_params params output_dim num_mixes of
        Inl e \<Rightarrow> ([], Inl e)
      | Inr (mus, sigs, pi_logits) \<Rightarrow>
          (case softmax pi_logits temp of
             Inl e \<Rightarrow>
               if e = NotANumber
               then ([''Error sampling categorical model.''],
                     draw_component mus sigs output_dim (- 1) sigma_temp)
               else ([], Inl e)
           | Inr pis \<Rightarrow> sample_from_pis mus sigs pis output_dim sigma_temp r))"

text \<open>
  The diagonal matrix \<open>diag v\<close> of the specification's covariance
  \<open>diag(sigma)\<^sup>2\<close>: \<open>v\<close> on the diagonal, zero elsewhere.
\<close>

definition diag :: "real list \<Rightarrow> real list list" where
  "diag v = map (\<lambda>i. map (\<lambda>j. if i = j then v ! i else 0) [0..<length v]) [0..<length v]"

subsection \<open>elu_plus_one_plus_epsilon\<close>

text \<open>
  \<^verbatim>\<open>tf.keras.backend.elu(x)\<close> with its default \<open>alpha = 1\<close> is \<open>x\<close> for positive
  \<open>x\<close> and \<open>exp x - 1\<close> otherwise, the exponential and the subtraction each
  rounded by \<open>rnd\<close>, the rounding of the tensor's float type. The two additions
  of \<^verbatim>\<open>elu(x) + 1 + epsilon()\<close> are rounded likewise.
  \<^verbatim>\<open>tf.keras.backend.epsilon()\<close> is a setting of the host framework (\<open>1e-7\<close>
  unless changed, which is \<open>14073749 / 2\<^sup>4\<^sup>7\<close> as a binary32 number) and is a
  parameter here.
\<close>

definition elu :: "(real \<Rightarrow> real) \<Rightarrow> real \<Rightarrow> real" where
  "elu rnd x = (if x > 0 then x else rnd (rnd (exp x) - 1))"

definition elu_plus_one_plus_epsilon :: "(real \<Rightarrow> real) \<Rightarrow> real \<Rightarrow> real \<Rightarrow> real" where
  "elu_plus_one_plus_epsilon rnd epsilon x = rnd (rnd (elu rnd x + 1) + epsilon)"

subsection \<open>get_mixture_loss_func\<close>

text \<open>
  A tensor is the list of its entries in row-major order. \<^verbatim>\<open>tf.reshape(x, [-1, width])\<close>
  cuts it into rows of \<open>width\<close> entries; for a positive \<open>width\<close> it raises
  unless \<open>width\<close> divides the number of entries, and it raises for a negative
  one. For \<open>width = 0\<close> it raises on a tensor with entries; an empty tensor is
  accepted with a number of rows taken from the tensor's shape, which the flat
  list does not carry.
\<close>

definition reshape_rows :: "int \<Rightarrow> real list \<Rightarrow> failure + real list list" where
  "reshape_rows width xs =
     (if width < 0 then Inl ReshapeError
      else if width = 0 then (if xs = [] then Inl Unmodelled else Inl ReshapeError)
      else if length xs mod nat width \<noteq> 0 then Inl ReshapeError
      else Inr (map (\<lambda>i. take (nat width) (drop (i * nat width) xs))
                  [0..<length xs div nat width]))"

text \<open>
  The TensorFlow Probability distributions the loss is built from, on one row.
  \<^verbatim>\<open>MultivariateNormalDiag(loc, scale_diag).log_prob\<close> is the sum over the
  dimensions of the log density of a normal distribution with standard deviation
  \<open>scale\<close>; \<^verbatim>\<open>Categorical(logits)\<close> has the log probabilities \<open>log_softmax logits\<close>;
  \<^verbatim>\<open>Mixture.log_prob\<close> is the log-sum-exp over the components of the component's
  log weight plus its log density. A scale of zero divides by zero and the
  result is NaN.
\<close>

definition normal_log_prob :: "real \<Rightarrow> real \<Rightarrow> real \<Rightarrow> real" where
  "normal_log_prob loc scale x = - ((x - loc) / scale)\<^sup>2 / 2 - ln (2 * pi) / 2 - ln \<bar>scale\<bar>"

definition mvn_diag_log_prob :: "real list \<Rightarrow> real list \<Rightarrow> real list \<Rightarrow> real" where
  "mvn_diag_log_prob loc scale x =
     (\<Sum>(l, s, y) \<leftarrow> zip loc (zip scale x). normal_log_prob l s y)"

definition reduce_logsumexp :: "real list \<Rightarrow> real" where
  "reduce_logsumexp xs = (let m = Max (set xs) in m + ln (\<Sum>x\<leftarrow>xs. exp (x - m)))"

definition log_softmax :: "real list \<Rightarrow> real list" where
  "log_softmax logits = map (\<lambda>l. l - reduce_logsumexp logits) logits"

text \<open>
  Lines 51 to 68 on one row \<open>pred\<close> of \<^verbatim>\<open>y_pred\<close> and one row \<open>target\<close> of
  \<^verbatim>\<open>y_true\<close>: the three-way split, the split of means and scales into
  \<open>num_mixes\<close> groups of \<open>output_dim\<close>, and the log probability of the mixture.
\<close>

definition mixture_log_prob :: "nat \<Rightarrow> nat \<Rightarrow> real list \<Rightarrow> real list \<Rightarrow> failure + real" where
  "mixture_log_prob output_dim num_mixes pred target =
     (let out_mu = take (num_mixes * output_dim) pred;
          out_sigma = take (num_mixes * output_dim) (drop (num_mixes * output_dim) pred);
          out_pi = drop (2 * num_mixes * output_dim) pred;
          mus = map (\<lambda>k. take output_dim (drop (k * output_dim) out_mu)) [0..<num_mixes];
          sigs = map (\<lambda>k. take output_dim (drop (k * output_dim) out_sigma)) [0..<num_mixes];
          coll = map2 (\<lambda>loc scale. mvn_diag_log_prob loc scale target) mus sigs
      in if 0 \<in> set out_sigma then Inl NotANumber
         else Inr (reduce_logsumexp (map2 (+) (log_softmax out_pi) coll)))"

text \<open>
  The rows of targets and predictions are matched one to one; a single row on
  either side is broadcast against the other side.
\<close>

definition pair_rows ::
  "real list list \<Rightarrow> real list list \<Rightarrow> failure + (real list \<times> real list) list" where
  "pair_rows trues preds =
     (if length trues = length preds then Inr (zip trues preds)
      else if length trues = 1 then Inr (map (\<lambda>p. (hd trues, p)) preds)
      else if length preds = 1 then Inr (map (\<lambda>t. (t, hd preds)) trues)
      else Inl BroadcastError)"

fun collect :: "(failure + 'a) list \<Rightarrow> failure + 'a list" where
  "collect [] = Inr []"
| "collect (Inl e # rs) = Inl e"
| "collect (Inr v # rs) = (case collect rs of Inl e \<Rightarrow> Inl e | Inr vs \<Rightarrow> Inr (v # vs))"

text \<open>\<^verbatim>\<open>tf.reduce_mean\<close>; the mean of no values is NaN.\<close>

definition reduce_mean :: "real list \<Rightarrow> failure + real" where
  "reduce_mean xs = (if xs = [] then Inl NotANumber else Inr (sum_list xs / real (length xs)))"

text \<open>
  \<^verbatim>\<open>loss_func\<close>, the function \<^verbatim>\<open>get_mixture_loss_func(output_dim, num_mixes)\<close>
  returns: reshape both tensors, take each row's mixture log probability, negate,
  average.
\<close>

definition loss_func :: "int \<Rightarrow> int \<Rightarrow> real list \<Rightarrow> real list \<Rightarrow> failure + real" where
  "loss_func output_dim num_mixes y_true y_pred =
     (case reshape_rows (2 * num_mixes * output_dim + num_mixes) y_pred of
        Inl e \<Rightarrow> Inl e
      | Inr preds \<Rightarrow>
     (case reshape_rows output_dim y_true of
        Inl e \<Rightarrow> Inl e
      | Inr trues \<Rightarrow>
     (case pair_rows trues preds of
        Inl e \<Rightarrow> Inl e
      | Inr rows \<Rightarrow>
     (case collect (map (\<lambda>(t, p). mixture_log_prob (nat output_dim) (nat num_mixes) p t) rows) of
        Inl e \<Rightarrow> Inl e
      | Inr loss \<Rightarrow> reduce_mean (map uminus loss)))))"

definition get_mixture_loss_func ::
  "int \<Rightarrow> int \<Rightarrow> real list \<Rightarrow> real list \<Rightarrow> failure + real" where
  "get_mixture_loss_func output_dim num_mixes = loss_func output_dim num_mixes"

text \<open>
  The mixture log-likelihood in the specification's words: the log of the
  weighted sum over the \<open>K\<close> components of \<open>weight\<^sub>k * N(y; mu\<^sub>k, diag(sigma\<^sub>k)\<^sup>2)\<close>,
  where \<open>N\<close> is the product over the \<open>D\<close> dimensions of the one-dimensional normal
  densities and the weights are the softmax of the logits. The layout of a row is
  \<open>[means(K*D) | scales(K*D) | weight_logits(K)]\<close>.
\<close>

definition normal_density :: "real \<Rightarrow> real \<Rightarrow> real \<Rightarrow> real" where
  "normal_density mu sigma y = exp (- (y - mu)\<^sup>2 / (2 * sigma\<^sup>2)) / (sigma * sqrt (2 * pi))"

definition component_density :: "real list \<Rightarrow> real list \<Rightarrow> real list \<Rightarrow> real" where
  "component_density mu sigma y =
     (\<Prod>(m, s, v) \<leftarrow> zip mu (zip sigma y). normal_density m s v)"

definition mixture_weights :: "real list \<Rightarrow> real list" where
  "mixture_weights logits = map (\<lambda>l. exp l / (\<Sum>j\<leftarrow>logits. exp j)) logits"

definition mixture_log_likelihood :: "nat \<Rightarrow> nat \<Rightarrow> real list \<Rightarrow> real list \<Rightarrow> real" where
  "mixture_log_likelihood D K pred y =
     ln (\<Sum>k\<leftarrow>[0..<K].
           mixture_weights (drop (2 * K * D) pred) ! k
             * component_density (take D (drop (k * D) pred))
                 (take D (drop (K * D + k * D) pred)) y)"

subsection \<open>Entropy\<close>




section \<open>Properties\<close>

subsection \<open>Slicing\<close>

lemma py_slice_prefix:
  "0 \<le> k \<Longrightarrow> py_slice xs None (Some k) = take (nat k) xs"
  by (simp add: py_slice_def slice_bound_def Let_def min_def)

lemma py_slice_middle:
  "0 \<le> a \<Longrightarrow> 0 \<le> b \<Longrightarrow> py_slice xs (Some a) (Some b) = take (nat b - nat a) (drop (nat a) xs)"
  by (auto simp add: py_slice_def slice_bound_def Let_def min_def)

lemma py_slice_suffix:
  "0 < k \<Longrightarrow> py_slice xs (Some (- k)) None = drop (length xs - nat k) xs"
  by (auto simp add: py_slice_def slice_bound_def Let_def max_def nat_diff_distrib')


subsection \<open>The partition of the parameter vector\<close>

text \<open>
  C2. For \<open>D \<ge> 1\<close>, \<open>K \<ge> 1\<close> and a parameter vector of length exactly
  \<open>2*K*D + K\<close>, \<open>split_mixture_params\<close> returns the first \<open>K*D\<close> entries as
  \<open>mus\<close>, the next \<open>K*D\<close> entries as \<open>sigs\<close> and the final \<open>K\<close> entries as
  \<open>pi_logits\<close>, and the concatenation of the three parts is the original vector.
\<close>

theorem split_mixture_params_partition:
  assumes "1 \<le> D" and "1 \<le> K"
    and "int (length params) = 2 * K * D + K"
  shows "\<exists>mus sigs pi_logits.
           split_mixture_params params D K = Inr (mus, sigs, pi_logits)
         \<and> mus = take (nat (K * D)) params
         \<and> sigs = take (nat (K * D)) (drop (nat (K * D)) params)
         \<and> pi_logits = drop (nat (2 * K * D)) params
         \<and> int (length mus) = K * D \<and> int (length sigs) = K * D
         \<and> int (length pi_logits) = K
         \<and> mus @ sigs @ pi_logits = params"
proof -
  have kd: "0 \<le> K * D" using assms by simp
  have k2: "0 \<le> 2 * K * D" using assms by simp
  have "length params = nat (2 * K * D + K)"
    using assms(3) by (metis nat_int)
  also have "\<dots> = nat (2 * K * D) + nat K"
    using k2 assms(2) by (intro nat_add_distrib) simp_all
  finally have len: "length params = nat (2 * K * D) + nat K" .
  have "2 * K * D = K * D + K * D" by simp
  then have two: "nat (2 * K * D) = nat (K * D) + nat (K * D)"
    using kd by (metis nat_add_distrib)
  have m: "py_slice params None (Some (K * D)) = take (nat (K * D)) params"
    using kd by (rule py_slice_prefix)
  have s: "py_slice params (Some (K * D)) (Some (2 * K * D))
             = take (nat (K * D)) (drop (nat (K * D)) params)"
    using py_slice_middle [OF kd k2, of params] two by simp
  have p: "py_slice params (Some (- K)) None = drop (nat (2 * K * D)) params"
    using py_slice_suffix [of K params] assms(2) len by simp
  have cat: "take (nat (K * D)) params @ take (nat (K * D)) (drop (nat (K * D)) params)
               @ drop (nat (2 * K * D)) params = params"
    unfolding two by (simp add: take_add [symmetric] del: append_assoc flip: append_assoc drop_drop)
  show ?thesis
    unfolding split_mixture_params_def Let_def m s p
    using cat len two kd assms(2) by (simp add: min_def)
qed

theorem split_mixture_params_partition_witness:
  "split_mixture_params [1, 2, 3, 4, 5, 6, 7, 8, 9, 10] 2 2
     = Inr ([1, 2, 3, 4], [5, 6, 7, 8], [9, 10])
   \<and> [1, 2, 3, 4] @ [5, 6, 7, 8] @ [9, 10] = [1, 2, 3, 4, 5, 6, 7, 8, 9, 10 :: real]"
  using split_mixture_params_partition [of 2 2 "[1, 2, 3, 4, 5, 6, 7, 8, 9, 10]"]
  by auto

text \<open>
  The claim C6, that a vector whose length is not \<open>2*K*D + K\<close> makes the function
  fail with a \<open>ShapeError\<close>, does not hold of the code: a vector of length 3 with
  \<open>D = 1\<close>, \<open>K = 2\<close> is sliced like any other.
\<close>

theorem split_mixture_params_no_length_check_counterexample:
  "int (length [1, 2, 3 :: real]) \<noteq> 2 * 2 * 1 + 2
   \<and> split_mixture_params [1, 2, 3] 1 2 = Inr ([1, 2], [3], [2, 3])
   \<and> split_mixture_params [1, 2, 3] 1 2 \<noteq> Inl ShapeError"
  by (simp add: split_mixture_params_def py_slice_def slice_bound_def)

text \<open>
  C6, amended. \<open>split_mixture_params\<close> is a function of its arguments alone and
  checks no length: for every vector and all \<open>D, K \<ge> 0\<close> it returns normally the
  slices \<^verbatim>\<open>params[:K*D]\<close>, \<^verbatim>\<open>params[K*D:2*K*D]\<close> and \<^verbatim>\<open>params[-K:]\<close>, that is
  the first \<open>K*D\<close> entries, the following \<open>K*D\<close> entries (as many as exist) and
  the last \<open>K\<close> entries (the whole vector when \<open>K = 0\<close>).
\<close>

theorem split_mixture_params_total:
  assumes "0 \<le> D" and "0 \<le> K"
  shows "split_mixture_params params D K =
           Inr (take (nat (K * D)) params,
                take (nat (K * D)) (drop (nat (K * D)) params),
                if K = 0 then params else drop (length params - nat K) params)"
proof -
  have kd: "0 \<le> K * D" using assms by simp
  have k2: "0 \<le> 2 * K * D" using assms by simp
  have "2 * K * D = K * D + K * D" by simp
  then have two: "nat (2 * K * D) = nat (K * D) + nat (K * D)"
    using kd by (metis nat_add_distrib)
  have m: "py_slice params None (Some (K * D)) = take (nat (K * D)) params"
    using kd by (rule py_slice_prefix)
  have s: "py_slice params (Some (K * D)) (Some (2 * K * D))
             = take (nat (K * D)) (drop (nat (K * D)) params)"
    using py_slice_middle [OF kd k2, of params] two by simp
  have p: "py_slice params (Some (- K)) None
             = (if K = 0 then params else drop (length params - nat K) params)"
  proof (cases "K = 0")
    case True
    then show ?thesis by (simp add: py_slice_def slice_bound_def)
  next
    case False
    then have "0 < K" using assms(2) by simp
    then show ?thesis using False by (simp add: py_slice_suffix)
  qed
  show ?thesis unfolding split_mixture_params_def Let_def m s p by simp
qed

theorem split_mixture_params_total_witness:
  "split_mixture_params [1, 2, 3, 4, 5, 6, 7] 1 2 = Inr ([1, 2], [3, 4], [6, 7])"
  using split_mixture_params_total [of 1 2 "[1, 2, 3, 4, 5, 6, 7]"] by simp

subsection \<open>softmax\<close>

lemma sum_list_map_divide:
  fixes c :: real
  shows "sum_list (map (\<lambda>x. f x / c) xs) = sum_list (map f xs) / c"
  by (induction xs) (simp_all add: add_divide_distrib)

lemma sum_list_exp_pos:
  fixes xs :: "'a list" and g :: "'a \<Rightarrow> real"
  assumes "xs \<noteq> []"
  shows "0 < sum_list (map (\<lambda>x. exp (g x)) xs)"
  using assms
proof (induction xs)
  case Nil then show ?case by simp
next
  case (Cons a xs)
  have "0 \<le> sum_list (map (\<lambda>x. exp (g x)) xs)"
    by (induction xs) simp_all
  then show ?case by (simp add: add_pos_nonneg)
qed

text \<open>
  C3. For a logit vector \<open>w\<close> (at least one entry, as \<open>num_mixes\<close> is positive)
  and a temperature \<open>t > 0\<close>, \<open>softmax w t\<close> is the vector of
  \<open>exp (w\<^sub>i / t - max\<^sub>j (w\<^sub>j / t)) / (\<Sum>\<^sub>k exp (w\<^sub>k / t - max\<^sub>j (w\<^sub>j / t)))\<close>;
  every entry is non-negative and the entries sum to 1.
\<close>

theorem softmax_closed_form:
  assumes "w \<noteq> []" and "0 < t"
  shows "\<exists>distr. softmax w t = Inr distr
         \<and> distr = map (\<lambda>x. exp (x / t - Max ((\<lambda>y. y / t) ` set w))
                          / (\<Sum>y\<leftarrow>w. exp (y / t - Max ((\<lambda>y. y / t) ` set w)))) w
         \<and> (\<forall>p \<in> set distr. 0 \<le> p)
         \<and> sum_list distr = 1"
proof -
  let ?M = "Max ((\<lambda>y. y / t) ` set w)"
  let ?Z = "\<Sum>y\<leftarrow>w. exp (y / t - ?M)"
  let ?d = "map (\<lambda>x. exp (x / t - ?M) / ?Z) w"
  have Z: "0 < ?Z" using assms(1) by (rule sum_list_exp_pos)
  have eq: "softmax w t = Inr ?d"
    using assms by (simp add: softmax_def Let_def comp_def)
  have nn: "\<forall>p \<in> set ?d. 0 \<le> p"
    using Z by (auto intro!: divide_nonneg_nonneg less_imp_le)
  have "sum_list ?d = ?Z / ?Z"
    by (simp add: comp_def sum_list_map_divide)
  then have one: "sum_list ?d = 1" using Z by simp
  show ?thesis using eq nn one by blast
qed

theorem softmax_closed_form_witness:
  "softmax [0, 0] 1 = Inr [1 / 2, 1 / 2] \<and> sum_list [1 / 2, 1 / 2 :: real] = 1"
  using softmax_closed_form [of "[0, 0]" 1] by simp

subsection \<open>sample_from_categorical\<close>

lemma categorical_walk_Some:
  "categorical_walk r acc i ds = Some k \<Longrightarrow>
     i \<le> k \<and> k - i < length ds \<and> r \<le> acc + sum_list (take (Suc (k - i)) ds)
     \<and> (\<forall>j < k - i. acc + sum_list (take (Suc j) ds) < r)"
proof (induction ds arbitrary: acc i)
  case Nil
  then show ?case by simp
next
  case (Cons d ds)
  show ?case
  proof (cases "r \<le> acc + d")
    case True
    with Cons.prems show ?thesis by (simp add: Let_def)
  next
    case False
    with Cons.prems have rec: "categorical_walk r (acc + d) (Suc i) ds = Some k"
      by (simp add: Let_def)
    from Cons.IH [OF rec] have ih: "Suc i \<le> k" "k - Suc i < length ds"
      "r \<le> acc + d + sum_list (take (Suc (k - Suc i)) ds)"
      "\<forall>j < k - Suc i. acc + d + sum_list (take (Suc j) ds) < r" by auto
    from ih(1) have ki: "k - i = Suc (k - Suc i)" by simp
    have small: "acc + sum_list (take (Suc j) (d # ds)) < r" if "j < k - i" for j
    proof (cases j)
      case 0
      then show ?thesis using False by simp
    next
      case (Suc j')
      then have "j' < k - Suc i" using that ki by simp
      then show ?thesis using ih(4) Suc by (simp add: add.assoc)
    qed
    show ?thesis using ih ki small by (simp add: add.assoc)
  qed
qed

lemma categorical_walk_None:
  "categorical_walk r acc i ds = None \<longleftrightarrow>
     (\<forall>j < length ds. acc + sum_list (take (Suc j) ds) < r)"
proof (induction ds arbitrary: acc i)
  case Nil
  then show ?case by simp
next
  case (Cons d ds)
  show ?case
  proof (cases "r \<le> acc + d")
    case True
    then have "\<not> (acc + sum_list (take (Suc 0) (d # ds)) < r)" by simp
    then have "\<not> (\<forall>j < length (d # ds). acc + sum_list (take (Suc j) (d # ds)) < r)"
      by (metis length_Cons zero_less_Suc)
    with True show ?thesis by (simp add: Let_def)
  next
    case False
    have "(\<forall>j < length (d # ds). acc + sum_list (take (Suc j) (d # ds)) < r)
            \<longleftrightarrow> (\<forall>j < length ds. acc + d + sum_list (take (Suc j) ds) < r)"
      (is "?L \<longleftrightarrow> ?R")
    proof
      assume l: ?L
      show ?R
      proof (intro allI impI)
        fix j assume "j < length ds"
        then have "Suc j < length (d # ds)" by simp
        from l [rule_format, OF this] show "acc + d + sum_list (take (Suc j) ds) < r"
          by (simp add: add.assoc)
      qed
    next
      assume rr: ?R
      show ?L
      proof (intro allI impI)
        fix j assume j: "j < length (d # ds)"
        show "acc + sum_list (take (Suc j) (d # ds)) < r"
        proof (cases j)
          case 0
          then show ?thesis using False by simp
        next
          case (Suc j')
          then have "j' < length ds" using j by simp
          from rr [rule_format, OF this] show ?thesis using Suc by (simp add: add.assoc)
        qed
      qed
    qed
    with False Cons.IH [of "acc + d" "Suc i"] show ?thesis by (simp add: Let_def)
  qed
qed

text \<open>
  C4. For a probability distribution \<open>distr\<close> (non-negative entries that sum to 1)
  and a draw \<open>r\<close> in \<open>[0, 1)\<close>, \<open>sample_from_categorical\<close> returns the smallest
  index \<open>i\<close> with \<open>distr\<^sub>0 + \<dots> + distr\<^sub>i \<ge> r\<close>, logging nothing; the result is a
  function of \<open>distr\<close> and \<open>r\<close> alone, and for the one-entry distribution
  \<open>[1]\<close> it is index 0 for every such \<open>r\<close>.
\<close>

theorem sample_from_categorical_first_index:
  assumes "\<forall>p \<in> set distr. 0 \<le> p" and "sum_list distr = 1"
    and "0 \<le> r" and "r < 1"
  shows "(\<exists>i < length distr.
            sample_from_categorical distr r = (int i, [])
          \<and> r \<le> sum_list (take (Suc i) distr)
          \<and> (\<forall>j < i. sum_list (take (Suc j) distr) < r))
       \<and> sample_from_categorical [1] r = (0, [])"
proof -
  have ne: "distr \<noteq> []" using assms(2) by auto
  have "\<not> (\<forall>j < length distr. 0 + sum_list (take (Suc j) distr) < r)"
  proof
    assume a: "\<forall>j < length distr. 0 + sum_list (take (Suc j) distr) < r"
    have "length distr - 1 < length distr" using ne by simp
    from a [rule_format, OF this] have "sum_list distr < r" using ne by simp
    with assms(2,4) show False by simp
  qed
  then obtain k where k: "categorical_walk r 0 0 distr = Some k"
    using categorical_walk_None [of r 0 0 distr] by auto
  from categorical_walk_Some [OF k]
  have "k < length distr" "r \<le> sum_list (take (Suc k) distr)"
    "\<forall>j < k. sum_list (take (Suc j) distr) < r" by auto
  moreover have "sample_from_categorical distr r = (int k, [])"
    using k by (simp add: sample_from_categorical_def)
  moreover have "sample_from_categorical [1] r = (0, [])"
    using assms(4) by (simp add: sample_from_categorical_def)
  ultimately show ?thesis by blast
qed

theorem sample_from_categorical_first_index_witness:
  "sample_from_categorical [1 / 4, 1 / 4, 1 / 2] (2 / 5) = (1, [])
   \<and> (2 / 5 :: real) \<le> sum_list (take 2 [1 / 4, 1 / 4, 1 / 2])
   \<and> sum_list (take 1 [1 / 4, 1 / 4, 1 / 2 :: real]) < 2 / 5"
  using sample_from_categorical_first_index [of "[1 / 4, 1 / 4, 1 / 2]" "2 / 5"]
  by (simp add: sample_from_categorical_def)

text \<open>
  C5. When the cumulative sum never reaches the draw \<open>r\<close> (no index \<open>i\<close> has
  \<open>distr\<^sub>0 + \<dots> + distr\<^sub>i \<ge> r\<close>), \<open>sample_from_categorical\<close> raises nothing: it
  logs the failure and returns the sentinel \<open>-1\<close>.
\<close>

theorem sample_from_categorical_sentinel:
  assumes "\<forall>j < length distr. sum_list (take (Suc j) distr) < r"
  shows "sample_from_categorical distr r = (- 1, [''Error sampling categorical model.''])"
proof -
  have "categorical_walk r 0 0 distr = None"
    using assms categorical_walk_None [of r 0 0 distr] by simp
  then show ?thesis by (simp add: sample_from_categorical_def)
qed

theorem sample_from_categorical_sentinel_witness:
  "sample_from_categorical [1 / 5, 3 / 10] (9 / 10)
     = (- 1, [''Error sampling categorical model.''])"
  using sample_from_categorical_sentinel [of "[1 / 5, 3 / 10]" "9 / 10"]
  by (simp add: less_Suc_eq all_conj_distrib)

subsection \<open>Floating-point rounding\<close>

text \<open>
  Rounding is odd and monotone, fixes the numbers of the format, and sends a
  magnitude of at most half the least subnormal number to zero.
\<close>

lemma rne_of_int: "rne (of_int n) = n"
  by (simp add: rne_def)

lemma rne_bounds: "\<lfloor>q\<rfloor> \<le> rne q \<and> rne q \<le> \<lfloor>q\<rfloor> + 1"
  by (simp add: rne_def Let_def)

lemma rne_mono:
  assumes "q \<le> q'"
  shows "rne q \<le> rne q'"
proof (cases "\<lfloor>q\<rfloor> = \<lfloor>q'\<rfloor>")
  case True
  then have "q - of_int \<lfloor>q\<rfloor> \<le> q' - of_int \<lfloor>q'\<rfloor>" using assms by simp
  then show ?thesis using True by (auto simp add: rne_def Let_def)
next
  case False
  then have "\<lfloor>q\<rfloor> < \<lfloor>q'\<rfloor>" using floor_mono [OF assms] by simp
  then have "rne q \<le> \<lfloor>q'\<rfloor>" using rne_bounds [of q] by simp
  then show ?thesis using rne_bounds [of q'] by simp
qed

lemma rne_minus: "rne (- q) = - rne q"
proof (cases "q = of_int \<lfloor>q\<rfloor>")
  case True
  then obtain n where "q = of_int n" ..
  then have "rne (- q) = rne (of_int (- n))" "rne q = rne (of_int n)" by simp_all
  then show ?thesis by (simp only: rne_of_int)
next
  case False
  then have lt: "of_int \<lfloor>q\<rfloor> < q"
    unfolding less_le using of_int_floor_le [of q] by auto
  have "of_int (- \<lfloor>q\<rfloor> - 1) \<le> - q" "- q < of_int (- \<lfloor>q\<rfloor> - 1) + 1"
    using lt by simp_all linarith
  then have fl: "\<lfloor>- q\<rfloor> = - \<lfloor>q\<rfloor> - 1" by (rule floor_unique)
  have ev: "even (- \<lfloor>q\<rfloor> - 1) \<longleftrightarrow> odd \<lfloor>q\<rfloor>" by simp
  show ?thesis
    unfolding rne_def Let_def fl ev
    by (auto simp add: algebra_simps)
qed

lemma rne_le_int: "q \<le> of_int n \<Longrightarrow> rne q \<le> n"
  using rne_mono [of q "of_int n"] by (simp add: rne_of_int)

lemma rne_ge_int: "of_int n \<le> q \<Longrightarrow> n \<le> rne q"
  using rne_mono [of "of_int n" q] by (simp add: rne_of_int)

lemma quantum_pos: "0 < quantum p emin x"
  by (simp add: quantum_def)

lemma quantum_minus: "quantum p emin (- x) = quantum p emin x"
  by (simp add: quantum_def exponent_def)

lemma fl_zero: "fl p emin 0 = 0"
  by (simp add: fl_def)

lemma fl_minus: "fl p emin (- x) = - fl p emin x"
  by (simp add: fl_def quantum_minus rne_minus)

lemma fl_nonneg: "0 \<le> x \<Longrightarrow> 0 \<le> fl p emin x"
proof -
  assume "0 \<le> x"
  then have "0 \<le> x / quantum p emin x" using quantum_pos [of p emin x] by simp
  then have "0 \<le> rne (x / quantum p emin x)" using rne_ge_int [of 0] by simp
  then show ?thesis using quantum_pos [of p emin x] by (simp add: fl_def)
qed

lemma fl_nonpos: "x \<le> 0 \<Longrightarrow> fl p emin x \<le> 0"
  using fl_nonneg [of "- x" p emin] by (simp add: fl_minus)

lemma exponent_mono:
  assumes "0 < x" and "x \<le> y"
  shows "exponent emin x \<le> exponent emin y"
proof -
  have "log 2 \<bar>x\<bar> \<le> log 2 \<bar>y\<bar>" using assms by simp
  then have "\<lfloor>log 2 \<bar>x\<bar>\<rfloor> \<le> \<lfloor>log 2 \<bar>y\<bar>\<rfloor>" by (rule floor_mono)
  then show ?thesis by (simp add: exponent_def)
qed

lemma below_next_binade:
  assumes "0 < x"
  shows "x < 2 powr real_of_int (exponent emin x + 1)"
proof -
  have "x < 2 powr real_of_int (\<lfloor>log 2 x\<rfloor> + 1)"
    using assms floor_log_eq_powr_iff [of x 2 "\<lfloor>log 2 x\<rfloor>"] by simp
  also have "\<dots> \<le> 2 powr real_of_int (exponent emin x + 1)"
    using assms by (intro powr_mono) (simp_all add: exponent_def)
  finally show ?thesis .
qed

lemma fl_le_next_binade:
  assumes "0 < x"
  shows "fl p emin x \<le> 2 powr real_of_int (exponent emin x + 1)"
proof -
  let ?u = "quantum p emin x"
  have u: "0 < ?u" by (rule quantum_pos)
  have split: "2 powr real_of_int (exponent emin x + 1) = ?u * 2 powr real p"
    by (simp add: quantum_def powr_add [symmetric])
  have "x / ?u < 2 powr real p"
    using below_next_binade [OF assms, of emin] u unfolding split
    by (simp add: field_simps)
  then have "x / ?u \<le> of_int (2 ^ p)" by (simp add: powr_realpow)
  then have "rne (x / ?u) \<le> 2 ^ p" by (rule rne_le_int)
  then have "real_of_int (rne (x / ?u)) \<le> 2 ^ p"
    by (metis of_int_le_iff of_int_numeral of_int_power)
  then have "?u * of_int (rne (x / ?u)) \<le> ?u * 2 ^ p" using u by simp
  then show ?thesis using assms unfolding split by (simp add: fl_def powr_realpow)
qed

lemma fl_ge_binade:
  assumes "0 < x" and "emin < exponent emin x" and "1 \<le> p"
  shows "2 powr real_of_int (exponent emin x) \<le> fl p emin x"
proof -
  let ?u = "quantum p emin x"
  let ?e = "exponent emin x"
  have u: "0 < ?u" by (rule quantum_pos)
  have e: "?e = \<lfloor>log 2 x\<rfloor>" using assms(1,2) by (simp add: exponent_def max_def split: if_splits)
  have le: "2 powr real_of_int ?e \<le> x"
    using assms(1) floor_log_eq_powr_iff [of x 2 "\<lfloor>log 2 x\<rfloor>"] e by simp
  have split: "2 powr real_of_int ?e = ?u * 2 powr real (p - 1)"
    using assms(3) by (simp add: quantum_def powr_add [symmetric] of_nat_diff)
  have "2 powr real (p - 1) \<le> x / ?u"
    using le u unfolding split by (simp add: field_simps)
  then have "of_int (2 ^ (p - 1)) \<le> x / ?u" by (simp add: powr_realpow)
  then have "2 ^ (p - 1) \<le> rne (x / ?u)" by (rule rne_ge_int)
  then have "2 ^ (p - 1) \<le> real_of_int (rne (x / ?u))"
    by (metis of_int_le_iff of_int_numeral of_int_power)
  then have "?u * 2 ^ (p - 1) \<le> ?u * of_int (rne (x / ?u))" using u by simp
  then show ?thesis using assms(1) unfolding split by (simp add: fl_def powr_realpow)
qed

lemma fl_mono_pos:
  assumes "0 < x" and "x \<le> y" and "1 \<le> p"
  shows "fl p emin x \<le> fl p emin y"
proof (cases "exponent emin x = exponent emin y")
  case True
  then have q: "quantum p emin x = quantum p emin y" by (simp add: quantum_def)
  have "x / quantum p emin y \<le> y / quantum p emin y"
    using assms(2) quantum_pos [of p emin y] by (simp add: divide_right_mono)
  then have "rne (x / quantum p emin y) \<le> rne (y / quantum p emin y)" by (rule rne_mono)
  then show ?thesis using assms(1,2) quantum_pos [of p emin y] by (simp add: fl_def q)
next
  case False
  then have lt: "exponent emin x < exponent emin y"
    using exponent_mono [OF assms(1,2), of emin] by simp
  have y: "0 < y" using assms(1,2) by simp
  have "emin \<le> exponent emin x" by (simp add: exponent_def)
  then have big: "emin < exponent emin y" using lt by simp
  have "fl p emin x \<le> 2 powr real_of_int (exponent emin x + 1)"
    using assms(1) by (rule fl_le_next_binade)
  also have "\<dots> \<le> 2 powr real_of_int (exponent emin y)"
    using lt by (intro powr_mono) simp_all
  also have "\<dots> \<le> fl p emin y" using y big assms(3) by (rule fl_ge_binade)
  finally show ?thesis .
qed

lemma fl_mono:
  assumes "x \<le> y" and "1 \<le> p"
  shows "fl p emin x \<le> fl p emin y"
proof -
  consider "0 < x" | "x \<le> 0" "0 \<le> y" | "y < 0" by linarith
  then show ?thesis
  proof cases
    case 1
    then show ?thesis using assms by (rule fl_mono_pos)
  next
    case 2
    then show ?thesis using fl_nonpos [of x p emin] fl_nonneg [of y p emin] by simp
  next
    case 3
    then have "0 < - y" "- y \<le> - x" using assms(1) by simp_all
    from fl_mono_pos [OF this assms(2), of emin] show ?thesis by (simp add: fl_minus)
  qed
qed

lemma fl_representable:
  assumes "x = of_int m * 2 powr real_of_int (e - (int p - 1))"
    and "2 ^ (p - 1) \<le> \<bar>m\<bar>" and "\<bar>m\<bar> < 2 ^ p" and "emin \<le> e" and "1 \<le> p"
  shows "fl p emin x = x"
proof -
  let ?u = "2 powr real_of_int (e - (int p - 1))"
  have u: "0 < ?u" by simp
  have m0: "m \<noteq> 0" using assms(2) by auto
  then have x0: "x \<noteq> 0" using assms(1) by simp
  have ax: "\<bar>x\<bar> = real_of_int \<bar>m\<bar> * ?u" using assms(1) by (simp add: abs_mult)
  have lo: "(2::real) ^ (p - 1) \<le> real_of_int \<bar>m\<bar>"
    using assms(2) by (metis of_int_le_iff of_int_numeral of_int_power)
  have hi: "real_of_int \<bar>m\<bar> < 2 ^ p"
    using assms(3) by (metis of_int_less_iff of_int_numeral of_int_power)
  have e1: "2 powr real_of_int e = 2 ^ (p - 1) * ?u"
    using assms(5) by (simp add: powr_add [symmetric] powr_realpow [symmetric] of_nat_diff)
  have e2: "2 powr real_of_int (e + 1) = 2 ^ p * ?u"
    by (simp add: powr_add [symmetric] powr_realpow [symmetric])
  have "2 powr real_of_int e \<le> \<bar>x\<bar>" unfolding e1 ax using lo u by simp
  moreover have "\<bar>x\<bar> < 2 powr real_of_int (e + 1)" unfolding e2 ax using hi u by simp
  ultimately have "\<lfloor>log 2 \<bar>x\<bar>\<rfloor> = e"
    using x0 floor_log_eq_powr_iff [of "\<bar>x\<bar>" 2 e] by simp
  then have "exponent emin x = e" using assms(4) by (simp add: exponent_def)
  then have q: "quantum p emin x = ?u" by (simp add: quantum_def)
  have xq: "x / ?u = of_int m" using assms(1) by simp
  have "fl p emin x = ?u * of_int (rne (x / ?u))" using x0 by (simp add: fl_def q)
  also have "\<dots> = ?u * of_int m" by (simp only: xq rne_of_int)
  also have "\<dots> = x" using assms(1) by simp
  finally show ?thesis .
qed

lemma fl_power_of_two:
  assumes "emin \<le> k" and "1 \<le> p"
  shows "fl p emin (2 powr real_of_int k) = 2 powr real_of_int k"
proof (rule fl_representable [where m = "2 ^ (p - 1)" and e = k])
  show "2 powr real_of_int k = real_of_int (2 ^ (p - 1)) * 2 powr real_of_int (k - (int p - 1))"
    using assms(2) by (simp add: powr_add [symmetric] powr_realpow [symmetric] of_nat_diff)
  show "(2::int) ^ (p - 1) \<le> \<bar>2 ^ (p - 1)\<bar>" by simp
  show "\<bar>(2::int) ^ (p - 1)\<bar> < 2 ^ p" using assms(2) by (simp add: power_strict_increasing)
qed (use assms in simp_all)

lemma fl_one: "emin \<le> 0 \<Longrightarrow> 1 \<le> p \<Longrightarrow> fl p emin 1 = 1"
  using fl_power_of_two [of emin 0 p] by simp


subsection \<open>The scale activation\<close>

lemma exp_le_power_of_two:
  assumes "x \<le> - real n"
  shows "exp x \<le> 2 powr (- real n)"
proof -
  have "ln (2::real) \<le> 1" using ln_2_less_1 by simp
  then have "real n * ln 2 \<le> real n * 1" by (intro mult_left_mono) simp_all
  then have "x \<le> - real n * ln 2" using assms by simp
  then show ?thesis by (simp add: powr_def)
qed

lemma fl_absorbed:
  assumes "0 \<le> a" and "a \<le> 2 powr (- real (p + 1))" and "emin \<le> - 1" and "1 \<le> p"
  shows "fl p emin (a - 1) = - 1"
proof (cases "a = 0")
  case True
  have "fl p emin (- 1) = - fl p emin 1" by (rule fl_minus)
  then show ?thesis using True assms(3,4) by (simp add: fl_one)
next
  case False
  then have a: "0 < a" using assms(1) by simp
  let ?y = "1 - a"
  have "2 powr (- real (p + 1)) \<le> 2 powr (- 1)" by (intro powr_mono) simp_all
  then have small: "a \<le> 1 / 2" using assms(2) by (simp add: powr_minus)
  have y: "0 < ?y" "1 / 2 \<le> ?y" "?y < 1" using a small by simp_all
  have "\<lfloor>log 2 \<bar>?y\<bar>\<rfloor> = - 1"
    using y floor_log_eq_powr_iff [of ?y 2 "- 1"] by (simp add: powr_minus)
  then have "exponent emin ?y = - 1" using assms(3) by (simp add: exponent_def)
  then have q: "quantum p emin ?y = 2 powr (- real p)" by (simp add: quantum_def)
  have u: "2 powr (- real p) * 2 ^ p = 1"
    by (simp add: powr_minus powr_realpow)
  have ap: "a * 2 ^ p \<le> 1 / 2"
  proof -
    have "a * 2 ^ p \<le> 2 powr (- real (p + 1)) * 2 ^ p"
      using assms(2) by (intro mult_right_mono) simp_all
    also have "\<dots> = 1 / 2 ^ (p + 1) * 2 ^ p"
      by (subst powr_minus_divide, subst powr_realpow) simp_all
    also have "\<dots> = 1 / 2" by simp
    finally show ?thesis .
  qed
  have ap0: "0 < a * 2 ^ p" using a by simp
  have qv: "?y / 2 powr (- real p) = 2 ^ p - a * 2 ^ p"
    by (simp add: powr_minus powr_realpow field_simps)
  have fl: "\<lfloor>(2::real) ^ p - a * 2 ^ p\<rfloor> = 2 ^ p - 1"
    using ap ap0 by (intro floor_unique) simp_all
  have odd: "odd ((2::int) ^ p - 1)" using assms(4) by simp
  have "rne (2 ^ p - a * 2 ^ p) = 2 ^ p"
    using ap ap0 odd unfolding rne_def Let_def fl by auto
  then have "fl p emin ?y = 2 powr (- real p) * 2 ^ p"
    using y(1) by (simp add: fl_def q qv)
  then have "fl p emin ?y = 1" using u by simp
  moreover have "fl p emin (a - 1) = - fl p emin ?y"
    using fl_minus [of p emin ?y] by simp
  ultimately show ?thesis by simp
qed

lemma elu_saturates:
  assumes "x \<le> - real (p + 1)" and "emin \<le> - int (p + 1)" and "1 \<le> p"
  shows "elu (fl p emin) x = - 1"
proof -
  have x: "\<not> 0 < x" using assms(1) by (smt (verit) of_nat_0_le_iff)
  have e: "exp x \<le> 2 powr (- real (p + 1))" using assms(1) by (rule exp_le_power_of_two)
  have "fl p emin (2 powr real_of_int (- int (p + 1))) = 2 powr real_of_int (- int (p + 1))"
    using assms(2,3) by (rule fl_power_of_two)
  then have r: "fl p emin (2 powr (- real (p + 1))) = 2 powr (- real (p + 1))" by simp
  have "fl p emin (exp x) \<le> fl p emin (2 powr (- real (p + 1)))"
    using e assms(3) by (rule fl_mono)
  then have hi: "fl p emin (exp x) \<le> 2 powr (- real (p + 1))" using r by simp
  have lo: "0 \<le> fl p emin (exp x)" by (rule fl_nonneg) simp
  have "emin \<le> - 1" using assms(2) by simp
  from fl_absorbed [OF lo hi this assms(3)] show ?thesis using x by (simp add: elu_def)
qed

lemma elu_lower_bound:
  assumes "emin \<le> 0" and "1 \<le> p"
  shows "- 1 \<le> elu (fl p emin) x"
proof (cases "0 < x")
  case True
  then show ?thesis by (simp add: elu_def)
next
  case False
  then have "exp x \<le> 1" by simp
  then have "fl p emin (exp x) \<le> fl p emin 1" using assms(2) by (rule fl_mono)
  then have "fl p emin (exp x) \<le> 1" using assms by (simp add: fl_one)
  moreover have "0 \<le> fl p emin (exp x)" by (rule fl_nonneg) simp
  ultimately have "- 1 \<le> fl p emin (exp x) - 1" by simp
  then have "fl p emin (- 1) \<le> fl p emin (fl p emin (exp x) - 1)"
    using assms(2) by (rule fl_mono)
  moreover have "fl p emin (- 1) = - 1"
    using fl_minus [of p emin 1] assms by (simp add: fl_one)
  ultimately show ?thesis using False by (simp add: elu_def)
qed

text \<open>
  C7, amended. In a floating-point format with \<open>p\<close> significand bits, for every
  input \<open>x\<close>, however negative, and a positive \<open>epsilon\<close> of the format:
  \<open>ELU x \<ge> -1\<close>, and \<open>elu_plus_one_plus_epsilon x\<close> is at least \<open>epsilon\<close> and
  strictly positive. The bounds are attained: for \<open>x \<le> -(p + 1)\<close> the rounded
  \<open>exp x - 1\<close> is exactly \<open>-1\<close> and the result is exactly \<open>epsilon\<close>.
\<close>

theorem elu_plus_one_plus_epsilon_at_least_epsilon:
  assumes "1 \<le> p" and "emin \<le> - int (p + 1)"
    and "0 < epsilon" and "fl p emin epsilon = epsilon"
  shows "- 1 \<le> elu (fl p emin) x
       \<and> epsilon \<le> elu_plus_one_plus_epsilon (fl p emin) epsilon x
       \<and> 0 < elu_plus_one_plus_epsilon (fl p emin) epsilon x
       \<and> (x \<le> - real (p + 1) \<longrightarrow>
            elu (fl p emin) x = - 1
          \<and> elu_plus_one_plus_epsilon (fl p emin) epsilon x = epsilon)"
proof -
  have e0: "emin \<le> 0" using assms(2) by simp
  have lb: "- 1 \<le> elu (fl p emin) x" using e0 assms(1) by (rule elu_lower_bound)
  then have "0 \<le> elu (fl p emin) x + 1" by simp
  then have "0 \<le> fl p emin (elu (fl p emin) x + 1)" by (rule fl_nonneg)
  then have "epsilon \<le> fl p emin (elu (fl p emin) x + 1) + epsilon" by simp
  then have "fl p emin epsilon \<le> fl p emin (fl p emin (elu (fl p emin) x + 1) + epsilon)"
    using assms(1) by (rule fl_mono)
  then have ge: "epsilon \<le> elu_plus_one_plus_epsilon (fl p emin) epsilon x"
    using assms(4) by (simp add: elu_plus_one_plus_epsilon_def)
  have sat: "elu (fl p emin) x = - 1
       \<and> elu_plus_one_plus_epsilon (fl p emin) epsilon x = epsilon"
    if "x \<le> - real (p + 1)"
  proof -
    have "elu (fl p emin) x = - 1" using that assms(2,1) by (rule elu_saturates)
    then show ?thesis using assms(4) by (simp add: elu_plus_one_plus_epsilon_def fl_zero)
  qed
  show ?thesis using lb ge assms(3) sat by auto
qed

lemma binary32_keras_epsilon: "binary32 (1 / 10 ^ 7) = 14073749 / 2 ^ 47"
proof -
  have "\<lfloor>log 2 \<bar>1 / 10 ^ 7 :: real\<bar>\<rfloor> = - 24"
    using floor_log_eq_powr_iff [of "1 / 10 ^ 7 :: real" 2 "- 24"]
    by (simp add: powr_minus_divide)
  then have "exponent (- 126) (1 / 10 ^ 7) = - 24" by (simp add: exponent_def)
  then have q: "quantum 24 (- 126) (1 / 10 ^ 7) = 1 / 2 ^ 47"
    by (simp add: quantum_def powr_minus_divide)
  have r: "rne (1 / 10 ^ 7 / (1 / 2 ^ 47)) = 14073749"
    by (simp add: rne_def Let_def)
  have "(1 / 10 ^ 7 :: real) \<noteq> 0" by simp
  then have "binary32 (1 / 10 ^ 7)
      = quantum 24 (- 126) (1 / 10 ^ 7)
          * of_int (rne (1 / 10 ^ 7 / quantum 24 (- 126) (1 / 10 ^ 7)))"
    by (simp only: binary32_def fl_def if_False)
  also have "\<dots> = 1 / 2 ^ 47 * of_int 14073749" by (simp only: q r)
  also have "\<dots> = 14073749 / 2 ^ 47" by simp
  finally show ?thesis .
qed

lemma binary32_epsilon_representable:
  "fl 24 (- 126) (14073749 / 2 ^ 47) = 14073749 / 2 ^ 47"
  by (rule fl_representable [where m = 14073749 and e = "- 24"])
    (simp_all add: powr_minus_divide)

text \<open>
  The claim C7, that \<open>ELU x > -1\<close> and that the result is strictly greater than
  \<open>epsilon\<close> for every \<open>x\<close>, does not hold of the rounded arithmetic: in binary32
  at \<open>x = -100\<close>, with the default \<open>epsilon\<close> of Keras, \<open>ELU x\<close> is exactly \<open>-1\<close>
  and the result is exactly \<open>epsilon\<close>.
\<close>

theorem elu_plus_one_plus_epsilon_equals_epsilon:
  "elu binary32 (- 100) = - 1
   \<and> elu_plus_one_plus_epsilon binary32 (binary32 (1 / 10 ^ 7)) (- 100) = binary32 (1 / 10 ^ 7)
   \<and> \<not> (- 1 < elu binary32 (- 100))
   \<and> \<not> (binary32 (1 / 10 ^ 7)
          < elu_plus_one_plus_epsilon binary32 (binary32 (1 / 10 ^ 7)) (- 100))"
proof -
  have "elu (fl 24 (- 126)) (- 100) = - 1"
    by (rule elu_saturates) simp_all
  then have e: "elu binary32 (- 100) = - 1" by (simp add: binary32_def)
  have r: "binary32 (14073749 / 2 ^ 47) = 14073749 / 2 ^ 47"
    using binary32_epsilon_representable by (simp add: binary32_def)
  have z: "binary32 0 = 0" by (simp add: binary32_def fl_zero)
  have "elu_plus_one_plus_epsilon binary32 (14073749 / 2 ^ 47) (- 100)
          = binary32 (binary32 (- 1 + 1) + 14073749 / 2 ^ 47)"
    by (simp only: elu_plus_one_plus_epsilon_def e)
  also have "\<dots> = binary32 (14073749 / 2 ^ 47)" by (simp add: z)
  also have "\<dots> = 14073749 / 2 ^ 47" by (rule r)
  finally have "elu_plus_one_plus_epsilon binary32 (binary32 (1 / 10 ^ 7)) (- 100)
               = binary32 (1 / 10 ^ 7)"
    by (simp only: binary32_keras_epsilon)
  then show ?thesis using e by simp
qed

theorem elu_plus_one_plus_epsilon_at_least_epsilon_witness:
  "(0::real) < 14073749 / 2 ^ 47
   \<and> 14073749 / 2 ^ 47 \<le> elu_plus_one_plus_epsilon (fl 24 (- 126)) (14073749 / 2 ^ 47) (- 30)
   \<and> elu_plus_one_plus_epsilon (fl 24 (- 126)) (14073749 / 2 ^ 47) (- 30) = 14073749 / 2 ^ 47"
  using elu_plus_one_plus_epsilon_at_least_epsilon [of 24 "- 126" "14073749 / 2 ^ 47" "- 30"]
    binary32_epsilon_representable
  by simp

subsection \<open>sample_from_output\<close>

lemma py_slice_window:
  assumes "0 \<le> m" and "0 \<le> D"
  shows "py_slice xs (Some (m * D)) (Some ((m + 1) * D))
           = take (nat D) (drop (nat (m * D)) xs)"
proof -
  have a: "0 \<le> m * D" using assms by simp
  have b: "0 \<le> (m + 1) * D" using assms by simp
  have "(m + 1) * D = m * D + D" by (simp add: algebra_simps)
  then have "nat ((m + 1) * D) = nat (m * D) + nat D"
    using a assms(2) by (metis nat_add_distrib)
  then show ?thesis using py_slice_middle [OF a b, of xs] by simp
qed

lemma identity_times_vector:
  assumes "length v = n"
  shows "map (\<lambda>row. map2 (*) row v)
           (map (\<lambda>i. map (\<lambda>j. if i = j then 1 else 0) [0..<n]) [0..<n]) = diag v"
  unfolding diag_def using assms
  by (auto intro!: nth_equalityI)

text \<open>
  For a component index \<open>m\<close> inside the vector, the matrix handed to the sampler as
  covariance carries the temperature-scaled sigmas themselves on its diagonal.
\<close>

lemma draw_component_covariance:
  assumes "1 \<le> D" and "0 \<le> m"
    and "(m + 1) * D \<le> int (length mus)" and "(m + 1) * D \<le> int (length sigs)"
  shows "draw_component mus sigs D m sigma_temp =
           Inr (MultivariateNormal (take (nat D) (drop (nat (m * D)) mus))
                  (diag (map (\<lambda>s. s * sigma_temp) (take (nat D) (drop (nat (m * D)) sigs)))))"
proof -
  have D0: "0 \<le> D" using assms(1) by simp
  have md: "0 \<le> m * D" using assms by simp
  have "(m + 1) * D = m * D + D" by (simp add: algebra_simps)
  then have bound: "nat (m * D) + nat D \<le> length mus" "nat (m * D) + nat D \<le> length sigs"
    using assms md D0 by linarith+
  let ?sv = "map (\<lambda>s. s * sigma_temp) (take (nat D) (drop (nat (m * D)) sigs))"
  have sv: "sig_vector sigs D m sigma_temp = ?sv"
    by (simp add: sig_vector_def py_slice_window [OF assms(2) D0])
  have mv: "mus_vector mus D m = take (nat D) (drop (nat (m * D)) mus)"
    by (simp add: mus_vector_def py_slice_window [OF assms(2) D0])
  have lsv: "length ?sv = nat D" using bound by simp
  have lmv: "length (take (nat D) (drop (nat (m * D)) mus)) = nat D" using bound by simp
  have cm: "cov_matrix sigs D m sigma_temp = Inr (diag ?sv)"
    using D0 lsv identity_times_vector [OF lsv]
    by (simp add: cov_matrix_def np_identity_def broadcast_mul_def sv)
  have ld: "length (diag ?sv) = nat D" using lsv by (simp add: diag_def)
  have nz: "nat D \<noteq> 0" using assms(1) by simp
  have cols: "(case diag ?sv of [] \<Rightarrow> 0 | row # _ \<Rightarrow> length row) = nat D"
  proof (cases "diag ?sv")
    case Nil
    then show ?thesis using ld nz by simp
  next
    case (Cons row rest)
    have "row = diag ?sv ! 0" using Cons by simp
    also have "\<dots> = map (\<lambda>j. if 0 = j then ?sv ! 0 else 0) [0..<length ?sv]"
      unfolding diag_def using lsv nz by (subst nth_map) simp_all
    finally have "length row = nat D" using lsv by simp
    then show ?thesis using Cons by simp
  qed
  show ?thesis
    unfolding draw_component_def cm mv
    using ld cols lmv assms(1) by (simp add: multivariate_normal_def Let_def)
qed

text \<open>
  C1 states that the sample is drawn with covariance \<open>diag((sigma_temp * sigs)\<^sup>2)\<close>,
  each dimension having standard deviation \<open>sigma_temp * sigma\<close>. On the
  parameters \<open>mu = 0\<close>, \<open>sigma = 2\<close>, one component, one dimension,
  \<open>sigma_temp = 1\<close>, the code draws from the normal distribution with covariance
  \<open>[[2]]\<close>, not \<open>[[4]]\<close>.
\<close>

theorem sample_from_output_covariance_not_squared:
  "sample_from_output [0, 2, 0] 1 1 1 1 (1 / 2) = ([], Inr (MultivariateNormal [0] [[2]]))
   \<and> MultivariateNormal [0] [[2]] \<noteq> MultivariateNormal [0] (diag [(1 * 2)\<^sup>2])"
  by (simp add: sample_from_output_def split_mixture_params_def py_slice_def slice_bound_def
      softmax_def sample_from_pis_def sample_from_categorical_def draw_component_def
      cov_matrix_def np_identity_def broadcast_mul_def sig_vector_def mus_vector_def
      multivariate_normal_def diag_def Let_def)

text \<open>
  C10. The index returned by the categorical sampler is not checked: when it is
  the sentinel \<open>-1\<close> (and \<open>output_dim \<ge> 1\<close>), the mean slice
  \<^verbatim>\<open>mus[-output_dim:0]\<close> is empty and the call ends in an exception, raised by
  the shape check of the Gaussian sampler for \<open>output_dim = 1\<close> and by the
  broadcast of the identity matrix with the empty sigma slice otherwise; the only
  report is the logged line.
\<close>

theorem sample_from_pis_unchecked_sentinel:
  assumes "1 \<le> D" and "fst (sample_from_categorical pis r) = - 1"
  shows "mus_vector mus D (- 1) = []
       \<and> sample_from_pis mus sigs pis D sigma_temp r
           = ([''Error sampling categorical model.''],
              Inl (if D = 1 then CovNotSquare else BroadcastError))"
proof -
  have sc: "sample_from_categorical pis r = (- 1, [''Error sampling categorical model.''])"
    using assms(2) by (auto simp add: sample_from_categorical_def split: option.splits)
  have mv: "mus_vector mus D (- 1) = []"
    using assms(1) by (simp add: mus_vector_def py_slice_def slice_bound_def Let_def)
  have sv: "sig_vector sigs D (- 1) sigma_temp = []"
    using assms(1) by (simp add: sig_vector_def py_slice_def slice_bound_def Let_def)
  have n: "nat D \<noteq> 0" using assms(1) by simp
  have one: "nat D = 1 \<longleftrightarrow> D = 1" using assms(1) by auto
  have cm: "cov_matrix sigs D (- 1) sigma_temp
              = (if D = 1 then Inr [[]] else Inl BroadcastError)"
    using assms(1) n one by (simp add: cov_matrix_def np_identity_def broadcast_mul_def sv)
  have "draw_component mus sigs D (- 1) sigma_temp
          = Inl (if D = 1 then CovNotSquare else BroadcastError)"
    by (simp add: draw_component_def cm multivariate_normal_def)
  then show ?thesis using mv sc by (simp add: sample_from_pis_def)
qed

theorem sample_from_pis_unchecked_sentinel_witness:
  "fst (sample_from_categorical [1 / 5, 3 / 10] (9 / 10)) = - 1
   \<and> mus_vector [0, 0, 5, 5] 2 (- 1) = []
   \<and> sample_from_pis [0, 0, 5, 5] [1, 1, 1, 1] [1 / 5, 3 / 10] 2 1 (9 / 10)
       = ([''Error sampling categorical model.''], Inl BroadcastError)"
proof -
  have h: "fst (sample_from_categorical [1 / 5, 3 / 10] (9 / 10)) = - 1"
    by (simp add: sample_from_categorical_def)
  show ?thesis
    using h sample_from_pis_unchecked_sentinel [of 2 "[1 / 5, 3 / 10]" "9 / 10" "[0, 0, 5, 5]" "[1, 1, 1, 1]" 1]
    by simp
qed

text \<open>
  At \<open>temp = 0\<close> the whole function takes the same path: the NaN array makes the
  sampler log and return \<open>-1\<close>, and the draw raises.
\<close>

lemma sample_from_output_zero_temperature:
  "sample_from_output [0, 2, 0] 1 1 0 1 (1 / 2)
     = ([''Error sampling categorical model.''], Inl CovNotSquare)"
  by (simp add: sample_from_output_def split_mixture_params_def py_slice_def slice_bound_def
      softmax_def draw_component_def cov_matrix_def np_identity_def broadcast_mul_def
      sig_vector_def multivariate_normal_def Let_def)

subsection \<open>The loss function\<close>

lemma length_concat_uniform:
  "\<forall>r \<in> set rows. length r = w \<Longrightarrow> length (concat rows) = length rows * w"
  by (induction rows) simp_all

lemma take_drop_concat_uniform:
  "\<forall>r \<in> set rows. length r = w \<Longrightarrow> i < length rows \<Longrightarrow>
     take w (drop (i * w) (concat rows)) = rows ! i"
proof (induction rows arbitrary: i)
  case Nil
  then show ?case by simp
next
  case (Cons r rows)
  then have r: "length r = w" by simp
  show ?case
  proof (cases i)
    case 0
    then show ?thesis using r by simp
  next
    case (Suc j)
    then have "j < length rows" using Cons.prems by simp
    moreover have "drop (w + j * w) (r @ concat rows) = drop (j * w) (concat rows)"
      using r by simp
    ultimately show ?thesis using Cons Suc by simp
  qed
qed

lemma reshape_rows_concat:
  assumes "0 < width" and "\<forall>r \<in> set rows. int (length r) = width"
  shows "reshape_rows width (concat rows) = Inr rows"
proof -
  have u: "\<forall>r \<in> set rows. length r = nat width" using assms(2) by auto
  have w: "0 < nat width" using assms(1) by simp
  have len: "length (concat rows) = length rows * nat width"
    using u by (rule length_concat_uniform)
  have "map (\<lambda>i. take (nat width) (drop (i * nat width) (concat rows)))
          [0..<length rows] = rows"
    using take_drop_concat_uniform [OF u] by (auto intro!: nth_equalityI)
  then show ?thesis using assms(1) w len by (simp add: reshape_rows_def)
qed

lemma collect_replicate:
  "collect (replicate (Suc n) x) = (case x of Inl e \<Rightarrow> Inl e | Inr v \<Rightarrow> Inr (replicate (Suc n) v))"
  by (induction n) (auto split: sum.splits)

lemma collect_length: "collect rs = Inr vs \<Longrightarrow> length vs = length rs"
proof (induction rs arbitrary: vs)
  case Nil
  then show ?case by simp
next
  case (Cons a rs)
  then show ?case by (cases a) (auto split: sum.splits)
qed

lemma loss_func_rows:
  assumes "1 \<le> D" and "1 \<le> K" and "trues \<noteq> []" and "length trues = length preds"
    and "\<forall>t \<in> set trues. int (length t) = D"
    and "\<forall>p \<in> set preds. int (length p) = 2 * K * D + K"
  shows "loss_func D K (concat trues) (concat preds) =
           (case collect (map2 (\<lambda>t p. mixture_log_prob (nat D) (nat K) p t) trues preds) of
              Inl e \<Rightarrow> Inl e
            | Inr ll \<Rightarrow> Inr (sum_list (map uminus ll) / real (length trues)))"
proof -
  have w: "0 < 2 * K * D + K" using assms(1,2) by (simp add: add_nonneg_pos)
  have d: "0 < D" using assms(1) by simp
  have rp: "reshape_rows (2 * K * D + K) (concat preds) = Inr preds"
    using w assms(6) by (rule reshape_rows_concat)
  have rt: "reshape_rows D (concat trues) = Inr trues"
    using d assms(5) by (rule reshape_rows_concat)
  have pr: "pair_rows trues preds = Inr (zip trues preds)"
    using assms(4) by (simp add: pair_rows_def)
  show ?thesis
  proof (cases "collect (map2 (\<lambda>t p. mixture_log_prob (nat D) (nat K) p t) trues preds)")
    case (Inl e)
    then show ?thesis by (simp add: loss_func_def rp rt pr)
  next
    case (Inr ll)
    from collect_length [OF Inr] have "length ll = length trues" using assms(4) by simp
    moreover from this have "ll \<noteq> []" using assms(3) by auto
    ultimately show ?thesis using Inr by (simp add: loss_func_def rp rt pr reduce_mean_def)
  qed
qed

text \<open>
  The model on the standard normal: one component, \<open>mu = 0\<close>, \<open>sigma = 1\<close>,
  target 0 gives the loss \<open>ln (2 * pi) / 2\<close>, about 0.9189.
\<close>

lemma loss_func_standard_normal:
  "loss_func 1 1 [0] [0, 1, 0] = Inr (ln (2 * pi) / 2)"
  by (simp add: loss_func_def reshape_rows_def pair_rows_def mixture_log_prob_def
      reduce_logsumexp_def log_softmax_def mvn_diag_log_prob_def normal_log_prob_def
      reduce_mean_def Let_def)

text \<open>
  What the loss computes on a row, a log-sum-exp over log weights plus log
  densities, is the mixture log-likelihood of the specification whenever the
  scales are positive.
\<close>

lemma exp_normal_log_prob:
  assumes "0 < sigma"
  shows "exp (normal_log_prob mu sigma y) = normal_density mu sigma y"
proof -
  have s: "exp (ln (2 * pi) / 2) = sqrt (2 * pi)"
    using ln_sqrt [of "2 * pi"] by (metis exp_ln pi_gt_zero real_sqrt_gt_zero zero_less_mult_iff zero_less_numeral less_imp_le)
  have "normal_log_prob mu sigma y
          = - (y - mu)\<^sup>2 / (2 * sigma\<^sup>2) - (ln (2 * pi) / 2 + ln sigma)"
    using assms by (simp add: normal_log_prob_def power_divide)
  then have "exp (normal_log_prob mu sigma y)
          = exp (- (y - mu)\<^sup>2 / (2 * sigma\<^sup>2)) / (exp (ln (2 * pi) / 2) * exp (ln sigma))"
    by (simp only: exp_diff exp_add)
  then show ?thesis using assms unfolding s by (simp add: normal_density_def mult.commute)
qed

lemma exp_sum_list: "exp (sum_list xs) = prod_list (map exp (xs :: real list))"
  by (induction xs) (simp_all add: exp_add)

lemma exp_mvn_diag_log_prob:
  assumes "\<forall>s \<in> set scale. 0 < s"
  shows "exp (mvn_diag_log_prob loc scale y) = component_density loc scale y"
proof -
  have key: "map (exp \<circ> (\<lambda>(l, s, v). normal_log_prob l s v)) (zip loc (zip scale y))
          = map (\<lambda>(m, s, v). normal_density m s v) (zip loc (zip scale y))"
  proof (rule map_cong [OF refl])
    fix t assume a: "t \<in> set (zip loc (zip scale y))"
    obtain l s v where t: "t = (l, s, v)" by (cases t) auto
    have "(s, v) \<in> set (zip scale y)" using a unfolding t by (rule set_zip_rightD)
    then have "s \<in> set scale" by (rule set_zip_leftD)
    then have "0 < s" using assms by simp
    then show "(exp \<circ> (\<lambda>(l, s, v). normal_log_prob l s v)) t
                 = (\<lambda>(m, s, v). normal_density m s v) t"
      using t by (simp add: exp_normal_log_prob)
  qed
  have "exp (mvn_diag_log_prob loc scale y)
          = prod_list (map exp (map (\<lambda>(l, s, v). normal_log_prob l s v) (zip loc (zip scale y))))"
    by (simp only: mvn_diag_log_prob_def exp_sum_list)
  also have "\<dots> = prod_list (map (exp \<circ> (\<lambda>(l, s, v). normal_log_prob l s v)) (zip loc (zip scale y)))"
    by (simp only: map_map)
  also have "\<dots> = component_density loc scale y"
    by (simp only: key component_density_def)
  finally show ?thesis .
qed

lemma exp_reduce_logsumexp:
  assumes "xs \<noteq> []"
  shows "exp (reduce_logsumexp xs) = (\<Sum>x\<leftarrow>xs. exp x)"
proof -
  let ?m = "Max (set xs)"
  have pos: "0 < (\<Sum>x\<leftarrow>xs. exp (x - ?m))" using assms by (rule sum_list_exp_pos)
  have "exp (reduce_logsumexp xs) = exp ?m * (\<Sum>x\<leftarrow>xs. exp (x - ?m))"
    using pos by (simp add: reduce_logsumexp_def Let_def exp_add)
  also have "\<dots> = (\<Sum>x\<leftarrow>xs. exp ?m * exp (x - ?m))"
    by (simp add: sum_list_const_mult)
  also have "\<dots> = (\<Sum>x\<leftarrow>xs. exp x)" by (simp add: exp_add [symmetric])
  finally show ?thesis .
qed

lemma reduce_logsumexp_ln:
  assumes "xs \<noteq> []"
  shows "reduce_logsumexp xs = ln (\<Sum>x\<leftarrow>xs. exp x)"
  using exp_reduce_logsumexp [OF assms] by (metis ln_exp)

lemma mixture_weights_log_softmax:
  assumes "k < length logits"
  shows "exp (log_softmax logits ! k) = mixture_weights logits ! k"
proof -
  have ne: "logits \<noteq> []" using assms by auto
  show ?thesis
    using assms by (simp add: log_softmax_def mixture_weights_def exp_diff
        exp_reduce_logsumexp [OF ne])
qed

lemma mixture_log_prob_is_log_likelihood:
  assumes "1 \<le> K" and "length pred = 2 * K * D + K"
    and "\<forall>s \<in> set (take (K * D) (drop (K * D) pred)). 0 < s"
  shows "mixture_log_prob D K pred y = Inr (mixture_log_likelihood D K pred y)"
proof -
  let ?pi = "drop (2 * K * D) pred"
  let ?mu = "\<lambda>k. take D (drop (k * D) pred)"
  let ?sg = "\<lambda>k. take D (drop (K * D + k * D) pred)"
  let ?mus = "map (\<lambda>k. take D (drop (k * D) (take (K * D) pred))) [0..<K]"
  let ?sigs = "map (\<lambda>k. take D (drop (k * D) (take (K * D) (drop (K * D) pred)))) [0..<K]"
  let ?coll = "map2 (\<lambda>loc scale. mvn_diag_log_prob loc scale y) ?mus ?sigs"
  let ?terms = "map2 (+) (log_softmax ?pi) ?coll"
  have lpi: "length ?pi = K" using assms(2) by simp
  have fit: "k * D + D \<le> K * D" if "k < K" for k
  proof -
    have "Suc k \<le> K" using that by simp
    then have "Suc k * D \<le> K * D" by (rule mult_le_mono1)
    then show ?thesis by (simp add: add.commute)
  qed
  have mu: "take D (drop (k * D) (take (K * D) pred)) = ?mu k" if "k < K" for k
    using fit [OF that] by (simp add: drop_take min_def)
  have sg: "take D (drop (k * D) (take (K * D) (drop (K * D) pred))) = ?sg k" if "k < K" for k
    using fit [OF that] by (simp add: drop_take min_def add.commute)
  have sgpos: "\<forall>s \<in> set (?sg k). 0 < s" if "k < K" for k
  proof -
    have "set (take D (drop (k * D) (take (K * D) (drop (K * D) pred))))
            \<subseteq> set (take (K * D) (drop (K * D) pred))"
      by (meson set_take_subset set_drop_subset subset_trans)
    then show ?thesis using assms(3) sg [OF that] by auto
  qed
  have nz: "0 \<notin> set (take (K * D) (drop (K * D) pred))" using assms(3) by auto
  have coll: "?coll = map (\<lambda>k. mvn_diag_log_prob (?mu k) (?sg k) y) [0..<K]"
    by (auto intro!: nth_equalityI simp add: mu sg)
  have terms: "?terms = map (\<lambda>k. log_softmax ?pi ! k + mvn_diag_log_prob (?mu k) (?sg k) y) [0..<K]"
    unfolding coll using lpi by (auto intro!: nth_equalityI simp add: log_softmax_def)
  have ne: "?terms \<noteq> []" unfolding terms using assms(1) by simp
  have "map exp ?terms = map (\<lambda>k. mixture_weights ?pi ! k * component_density (?mu k) (?sg k) y) [0..<K]"
    unfolding terms
    using lpi by (auto simp add: exp_add mixture_weights_log_softmax exp_mvn_diag_log_prob sgpos)
  then have "(\<Sum>x\<leftarrow>?terms. exp x)
      = (\<Sum>k\<leftarrow>[0..<K]. mixture_weights ?pi ! k * component_density (?mu k) (?sg k) y)"
    by (metis map_map comp_def)
  then have "reduce_logsumexp ?terms = mixture_log_likelihood D K pred y"
    unfolding mixture_log_likelihood_def reduce_logsumexp_ln [OF ne] by simp
  then show ?thesis using nz by (simp add: mixture_log_prob_def Let_def)
qed

lemma collect_Inr: "collect (map (\<lambda>x. Inr (f x)) xs) = Inr (map f xs)"
  by (induction xs) simp_all

lemma mixture_log_likelihood_standard_normal:
  "mixture_log_likelihood 1 1 [0, 1, 0] [0] = - (ln (2 * pi) / 2)"
proof -
  have "mixture_log_likelihood 1 1 [0, 1, 0] [0] = ln (1 / sqrt (2 * pi))"
    by (simp add: mixture_log_likelihood_def mixture_weights_def component_density_def
        normal_density_def)
  also have "\<dots> = - ln (sqrt (2 * pi))" by (simp add: ln_div)
  also have "\<dots> = - (ln (2 * pi) / 2)" by (simp add: ln_sqrt)
  finally show ?thesis .
qed

lemma loss_func_identical_rows:
  assumes "1 \<le> D" and "1 \<le> K" and "trues \<noteq> []" and "length trues = length preds"
    and "\<forall>t \<in> set trues. int (length t) = D"
    and "\<forall>p \<in> set preds. int (length p) = 2 * K * D + K"
    and same: "trues = replicate (length trues) t \<and> preds = replicate (length preds) p"
  shows "loss_func D K (concat trues) (concat preds) = loss_func D K t p"
proof -
  obtain n where n: "length trues = Suc n" using assms(3) by (cases trues) auto
  have n': "length preds = Suc n" using n assms(4) by simp
  have tr: "trues = replicate (Suc n) t"
    using conjunct1 [OF same] by (simp only: n)
  have pr: "preds = replicate (Suc n) p"
    using conjunct2 [OF same] by (simp only: n')
  have lt: "int (length t) = D" using assms(5) tr by simp
  have lp: "int (length p) = 2 * K * D + K" using assms(6) pr by simp
  have single: "loss_func D K (concat [t]) (concat [p]) =
           (case collect (map2 (\<lambda>t p. mixture_log_prob (nat D) (nat K) p t) [t] [p]) of
              Inl e \<Rightarrow> Inl e
            | Inr ll \<Rightarrow> Inr (sum_list (map uminus ll) / real (length [t])))"
    using assms(1,2) lt lp by (intro loss_func_rows) simp_all
  have z: "map2 (\<lambda>t p. mixture_log_prob (nat D) (nat K) p t) trues preds
             = replicate (Suc n) (mixture_log_prob (nat D) (nat K) p t)"
    unfolding tr pr by (simp add: zip_replicate map_replicate del: replicate_Suc replicate.simps)
  have many: "loss_func D K (concat trues) (concat preds) =
           (case collect (replicate (Suc n) (mixture_log_prob (nat D) (nat K) p t)) of
              Inl e \<Rightarrow> Inl e
            | Inr ll \<Rightarrow> Inr (sum_list (map uminus ll) / real (Suc n)))"
    by (simp only: loss_func_rows [OF assms(1-6)] z n)
  show ?thesis
  proof (cases "mixture_log_prob (nat D) (nat K) p t")
    case (Inl e)
    then show ?thesis using many single by (simp add: collect_replicate del: replicate_Suc replicate.simps)
  next
    case (Inr v)
    have "sum_list (map uminus (replicate (Suc n) v)) / real (Suc n) = - v"
      by (simp add: sum_list_replicate map_replicate del: replicate_Suc replicate.simps of_nat_Suc)
    then show ?thesis using many single Inr
      by (simp add: collect_replicate del: replicate_Suc replicate.simps of_nat_Suc)
  qed
qed

text \<open>
  C8. For a batch of \<open>B \<ge> 1\<close> rows with positive scales the loss is the mean over
  the rows of the negated mixture log-likelihood of each row; hence (and for any
  scales) for \<open>B\<close> identical prediction and target rows the batch loss equals the
  loss of the single row.
\<close>

theorem loss_is_mean_negative_log_likelihood:
  assumes "1 \<le> D" and "1 \<le> K" and "trues \<noteq> []" and "length trues = length preds"
    and "\<forall>t \<in> set trues. int (length t) = D"
    and "\<forall>p \<in> set preds. int (length p) = 2 * K * D + K"
  shows "((\<forall>p \<in> set preds. \<forall>s \<in> set (take (nat (K * D)) (drop (nat (K * D)) p)). 0 < s) \<longrightarrow>
            get_mixture_loss_func D K (concat trues) (concat preds) =
              Inr ((\<Sum>(t, p) \<leftarrow> zip trues preds. - mixture_log_likelihood (nat D) (nat K) p t)
                     / real (length trues)))
       \<and> (trues = replicate (length trues) t \<and> preds = replicate (length preds) p
            \<longrightarrow> get_mixture_loss_func D K (concat trues) (concat preds)
                  = get_mixture_loss_func D K t p)"
proof (intro conjI impI)
  assume pos: "\<forall>p \<in> set preds. \<forall>s \<in> set (take (nat (K * D)) (drop (nat (K * D)) p)). 0 < s"
  have kd: "nat (K * D) = nat K * nat D" using assms(1,2) by (simp add: nat_mult_distrib)
  have k1: "1 \<le> nat K" using assms(2) by simp
  have row: "mixture_log_prob (nat D) (nat K) p t = Inr (mixture_log_likelihood (nat D) (nat K) p t)"
    if "p \<in> set preds" for p t
  proof (rule mixture_log_prob_is_log_likelihood [OF k1])
    have "int (length p) = 2 * K * D + K" using assms(6) that by simp
    then have "length p = nat (2 * (K * D) + K)" by (metis nat_int mult.assoc)
    also have "\<dots> = 2 * nat (K * D) + nat K"
      using assms(1,2) by (simp add: nat_add_distrib nat_mult_distrib)
    finally show "length p = 2 * nat K * nat D + nat K" by (simp add: kd)
    show "\<forall>s \<in> set (take (nat K * nat D) (drop (nat K * nat D) p)). 0 < s"
      using pos that by (simp add: kd)
  qed
  have "map2 (\<lambda>t p. mixture_log_prob (nat D) (nat K) p t) trues preds
          = map (\<lambda>x. Inr (case x of (t, p) \<Rightarrow> mixture_log_likelihood (nat D) (nat K) p t))
              (zip trues preds)"
    by (rule map_cong [OF refl]) (auto simp add: row dest: set_zip_rightD)
  then have "collect (map2 (\<lambda>t p. mixture_log_prob (nat D) (nat K) p t) trues preds)
          = Inr (map (\<lambda>(t, p). mixture_log_likelihood (nat D) (nat K) p t) (zip trues preds))"
    by (simp only: collect_Inr)
  then have "loss_func D K (concat trues) (concat preds)
          = Inr (sum_list (map uminus
                   (map (\<lambda>(t, p). mixture_log_likelihood (nat D) (nat K) p t) (zip trues preds)))
                 / real (length trues))"
    using loss_func_rows [OF assms] by simp
  moreover have "map uminus (map (\<lambda>(t, p). mixture_log_likelihood (nat D) (nat K) p t) (zip trues preds))
      = map (\<lambda>(t, p). - mixture_log_likelihood (nat D) (nat K) p t) (zip trues preds)"
    by (simp add: case_prod_unfold)
  ultimately show "get_mixture_loss_func D K (concat trues) (concat preds) =
              Inr ((\<Sum>(t, p) \<leftarrow> zip trues preds. - mixture_log_likelihood (nat D) (nat K) p t)
                     / real (length trues))"
    by (simp only: get_mixture_loss_func_def)
next
  assume same: "trues = replicate (length trues) t \<and> preds = replicate (length preds) p"
  show "get_mixture_loss_func D K (concat trues) (concat preds) = get_mixture_loss_func D K t p"
    unfolding get_mixture_loss_func_def using assms same by (rule loss_func_identical_rows)
qed

theorem loss_is_mean_negative_log_likelihood_witness:
  "get_mixture_loss_func 1 1 [0, 0, 0] [0, 1, 0, 0, 1, 0, 0, 1, 0] = Inr (ln (2 * pi) / 2)
   \<and> get_mixture_loss_func 1 1 [0, 0, 0] [0, 1, 0, 0, 1, 0, 0, 1, 0]
       = get_mixture_loss_func 1 1 [0] [0, 1, 0]"
proof -
  have a: "get_mixture_loss_func 1 1 (concat [[0], [0], [0]])
          (concat [[0, 1, 0], [0, 1, 0], [0, 1, 0]])
          = Inr ((\<Sum>(t, p) \<leftarrow> zip [[0], [0], [0]] [[0, 1, 0], [0, 1, 0], [0, 1, 0]].
                    - mixture_log_likelihood (nat 1) (nat 1) p t)
                 / real (length [[0 :: real], [0], [0]]))"
    by (rule loss_is_mean_negative_log_likelihood [of 1 1 "[[0], [0], [0]]"
          "[[0, 1, 0], [0, 1, 0], [0, 1, 0]]" "[0]" "[0, 1, 0]", THEN conjunct1, rule_format])
      simp_all
  have b: "get_mixture_loss_func 1 1 (concat [[0], [0], [0]])
          (concat [[0, 1, 0], [0, 1, 0], [0, 1, 0]])
          = get_mixture_loss_func 1 1 [0] [0, 1, 0]"
    by (rule loss_is_mean_negative_log_likelihood [of 1 1 "[[0], [0], [0]]"
          "[[0, 1, 0], [0, 1, 0], [0, 1, 0]]" "[0]" "[0, 1, 0]", THEN conjunct2, rule_format])
      simp_all
  show ?thesis using a b mixture_log_likelihood_standard_normal by simp
qed

subsection \<open>Entropy of softmax under temperature\<close>













subsection \<open>Entropy of softmax with underflow\<close>











end
